theory Spec2Isabelle
  imports Complex_Main "HOL-Library.Multiset"
begin

section \<open>The result map (checker.go, lines 20-37)\<close>

text \<open>
  A Go map is a reference that may be nil. A nil map reads as empty, and an assignment
  to an entry of a nil map is a run-time panic. \<open>None\<close> is the nil map, \<open>Some m\<close> an
  allocated map with the entries \<open>m\<close>; keys and values are Go strings (byte sequences).
\<close>

type_synonym gomap = "(string \<rightharpoonup> string) option"

text \<open>
  \<^verbatim>\<open>type SafeMap struct { v map[string]string; mux sync.Mutex }\<close>.
  Both methods take the mutex on entry and release it before they return, so each of
  them is one atomic step on the field \<open>v\<close> and the mutex is free between two steps:
  the model keeps the field \<open>v\<close> and takes each method as one step.
\<close>

record SafeMap =
  v :: gomap

text \<open>
  \<^verbatim>\<open>results.v[key] = value\<close>: the updated receiver, or \<open>None\<close> for the panic
  "assignment to entry in nil map".
\<close>

definition Ins :: "SafeMap \<Rightarrow> string \<Rightarrow> string \<Rightarrow> SafeMap option" where
  "Ins results key val =
     (case v results of
        None \<Rightarrow> None
      | Some m \<Rightarrow> Some (results\<lparr>v := Some (m(key \<mapsto> val))\<rparr>))"

text \<open>
  \<^verbatim>\<open>return results.v[key]\<close>: the zero value of \<open>string\<close>, the empty string, for a key
  that is absent (and for every key of a nil map).
\<close>

definition Retrieve :: "SafeMap \<Rightarrow> string \<Rightarrow> string" where
  "Retrieve results key =
     (case v results of
        None \<Rightarrow> []
      | Some m \<Rightarrow> (case m key of None \<Rightarrow> [] | Some s \<Rightarrow> s))"

text \<open>A sequence of \<open>Ins\<close> calls on one receiver, stopping at the first panic.\<close>

fun Ins_all :: "SafeMap \<Rightarrow> (string \<times> string) list \<Rightarrow> SafeMap option" where
  "Ins_all results [] = Some results"
| "Ins_all results ((key, val) # kvs) =
     (case Ins results key val of
        None \<Rightarrow> None
      | Some results' \<Rightarrow> Ins_all results' kvs)"

section \<open>Time, durations and float64 (the library calls of checkDomain)\<close>

text \<open>
  A \<^verbatim>\<open>time.Time\<close> is an instant, here the integer count of nanoseconds since the Unix
  epoch. A \<^verbatim>\<open>time.Duration\<close> is an \<^verbatim>\<open>int64\<close> count of nanoseconds.
  \<^verbatim>\<open>t.Sub(u)\<close> is \<open>t - u\<close>, and the largest or smallest duration when \<open>t - u\<close> does
  not fit (the certificate's \<^verbatim>\<open>NotAfter\<close> carries no monotonic clock reading, so the
  wall clock readings are subtracted).
\<close>

definition maxDuration :: int where
  "maxDuration = 9223372036854775807"

definition minDuration :: int where
  "minDuration = - 9223372036854775808"

definition Time_Sub :: "int \<Rightarrow> int \<Rightarrow> int" where
  "Time_Sub t u =
     (let d = t - u
      in if d < minDuration then minDuration
         else if maxDuration < d then maxDuration
         else d)"

definition Hour :: int where
  "Hour = 3600000000000"

text \<open>Go's integer division truncates toward zero; the remainder has the dividend's sign.\<close>

definition quo :: "int \<Rightarrow> int \<Rightarrow> int" where
  "quo a b = sgn a * sgn b * (\<bar>a\<bar> div \<bar>b\<bar>)"

definition rem :: "int \<Rightarrow> int \<Rightarrow> int" where
  "rem a b = sgn a * (\<bar>a\<bar> mod \<bar>b\<bar>)"

text \<open>
  A finite \<^verbatim>\<open>float64\<close> is a rational number, and an arithmetic operation on
  \<^verbatim>\<open>float64\<close> is the exact operation followed by rounding to the nearest number with
  a 53-bit significand, ties to the even significand: \<open>f64\<close>. The values of this
  program have magnitudes between \<open>2\<^sup>-\<^sup>4\<^sup>7\<close> and \<open>2\<^sup>2\<^sup>2\<close> or are zero, far from
  overflow and from the subnormal range, which \<open>f64\<close> leaves out.
\<close>

function bits :: "int \<Rightarrow> int" where
  "bits n = (if n \<le> 0 then 0 else 1 + bits (n div 2))"
  by pat_completeness auto
termination
  by (relation "measure nat") auto

declare bits.simps [simp del]

definition pow2 :: "int \<Rightarrow> rat" where
  "pow2 e = (if 0 \<le> e then 2 ^ nat e else 1 / 2 ^ nat (- e))"

text \<open>Rounding to the nearest integer, a tie going to the even one.\<close>

definition round_even :: "rat \<Rightarrow> int" where
  "round_even x =
     (let n = \<lfloor>x\<rfloor>; r = x - of_int n
      in if r < 1 / 2 then n
         else if 1 / 2 < r then n + 1
         else if even n then n else n + 1)"

text \<open>The binary exponent of a positive rational: \<open>2 ^ ilog2 x \<le> x < 2 ^ (ilog2 x + 1)\<close>.\<close>

definition ilog2 :: "rat \<Rightarrow> int" where
  "ilog2 x =
     (let (p, q) = quotient_of x;
          k = bits p - bits q
      in if pow2 k \<le> x then k else k - 1)"

definition f64 :: "rat \<Rightarrow> rat" where
  "f64 x =
     (if x = 0 then 0
      else let e = ilog2 \<bar>x\<bar> - 52
           in sgn x * of_int (round_even (\<bar>x\<bar> / pow2 e)) * pow2 e)"

text \<open>
  \<^verbatim>\<open>func (d Duration) Hours() float64 {
      hour := d / Hour
      nsec := d % Hour
      return float64(hour) + float64(nsec)/(60*60*1e9) }\<close>
\<close>

definition Duration_Hours :: "int \<Rightarrow> rat" where
  "Duration_Hours d =
     (let hour = quo d Hour;
          nsec = rem d Hour
      in f64 (f64 (of_int hour) + f64 (f64 (of_int nsec) / 3600000000000)))"

text \<open>The base-10 numeral of a non-negative integer.\<close>

definition digit :: "int \<Rightarrow> char" where
  "digit k = ''0123456789'' ! nat k"

function decimal :: "int \<Rightarrow> string" where
  "decimal n = (if n < 10 then [digit n] else decimal (n div 10) @ [digit (n mod 10)])"
  by pat_completeness auto
termination
  by (relation "measure nat") auto

declare decimal.simps [simp del]

text \<open>
  \<^verbatim>\<open>strconv.FormatFloat(x, 'f', 0, 64)\<close>: a minus sign for a negative \<open>x\<close>, then the
  digits of the magnitude with no digit after the decimal point and no decimal point.
  The library rounds the exact decimal expansion of the magnitude at that place, to
  the nearest, a tie going to the even digit.
\<close>

definition FormatFloat_f_0 :: "rat \<Rightarrow> string" where
  "FormatFloat_f_0 x = (if x < 0 then ''-'' else []) @ decimal (round_even \<bar>x\<bar>)"

section \<open>The probe (checker.go, lines 39-53)\<close>

text \<open>
  \<^verbatim>\<open>x509.Certificate\<close>, of which the program reads \<^verbatim>\<open>NotAfter\<close>.
\<close>

record Certificate =
  NotAfter :: int

text \<open>
  What \<^verbatim>\<open>tls.Dial("tcp", host, nil)\<close> does is the network's: it returns an error
  (\<open>Failed\<close>, with the text of \<^verbatim>\<open>err.Error()\<close>), or a connection (\<open>Connected\<close>, with
  the \<^verbatim>\<open>PeerCertificates\<close> of its connection state), or, no deadline being set, it
  never returns (\<open>Hangs\<close>).
\<close>

datatype dial_result = Failed string | Connected "Certificate list" | Hangs

text \<open>
  \<open>checkDomain Dial Now domain\<close> is the string the call returns, in a world where
  \<^verbatim>\<open>tls.Dial\<close> behaves as \<open>Dial\<close> and \<^verbatim>\<open>time.Now()\<close> reads \<open>Now\<close> after the handshake.
  \<open>None\<close> is a call that does not return: the dial hangs, or the read of
  \<^verbatim>\<open>PeerCertificates[0]\<close> panics on an empty chain. The line the failure branch writes
  to the log is not part of the result and is left out.
\<close>

definition checkDomain :: "(string \<Rightarrow> dial_result) \<Rightarrow> int \<Rightarrow> string \<Rightarrow> string option" where
  "checkDomain Dial Now domain =
     (let host = domain @ '':443''
      in case Dial host of
           Failed err \<Rightarrow> Some err
         | Hangs \<Rightarrow> None
         | Connected PeerCertificates \<Rightarrow>
             (case PeerCertificates of
                [] \<Rightarrow> None
              | cert # _ \<Rightarrow>
                  (let timeNow = Now;
                       expiresIn =
                         FormatFloat_f_0 (f64 (Duration_Hours (Time_Sub (NotAfter cert) timeNow) / 24))
                   in Some expiresIn)))"

text \<open>
  The \<^verbatim>\<open>float64\<close> value that \<open>checkDomain\<close> formats:
  \<^verbatim>\<open>cert.NotAfter.Sub(timeNow).Hours()/24\<close>.
\<close>

definition remaining_days :: "Certificate \<Rightarrow> int \<Rightarrow> rat" where
  "remaining_days cert timeNow =
     f64 (Duration_Hours (Time_Sub (NotAfter cert) timeNow) / 24)"

section \<open>The batch runner (checker.go, lines 18 and 55-86)\<close>

definition concurrent :: nat where
  "concurrent = 10"

text \<open>
  The outcome of one \<^verbatim>\<open>checkDomain\<close> call depends on the network and on the clock at
  the time of the call. A \<open>probe\<close> gives the outcome of the call made by each goroutine:
  \<open>probe k domain\<close> is what \<^verbatim>\<open>checkDomain(domain)\<close> returns in goroutine number \<open>k\<close>
  (\<open>None\<close> when it does not return). A probe that ignores \<open>k\<close> is deterministic.
\<close>

type_synonym probe = "nat \<Rightarrow> string \<Rightarrow> string option"

definition network_probe :: "(nat \<Rightarrow> string \<Rightarrow> dial_result) \<Rightarrow> (nat \<Rightarrow> int) \<Rightarrow> probe" where
  "network_probe Dial Now = (\<lambda>k domain. checkDomain (Dial k) (Now k) domain)"

text \<open>
  What a run leaves behind besides the map: the lines \<^verbatim>\<open>fmt.Println(domains)\<close> printed
  (one per call of \<^verbatim>\<open>processBatch\<close>, each the slice it was given), and the domains
  for which a goroutine was launched, one per \<^verbatim>\<open>go\<close> statement executed, in order.
\<close>

record trace =
  printed :: "string list list"
  launched :: "string list"

text \<open>
  The goroutines of one batch, each \<^verbatim>\<open>results.Ins(domain, checkDomain(domain))\<close>, in
  the order in which they take the mutex. A goroutine whose probe does not return
  never calls \<^verbatim>\<open>wg.Done()\<close> (or takes the process down), so the batch does not return.
\<close>

fun goroutines :: "probe \<Rightarrow> SafeMap \<Rightarrow> (nat \<times> string) list \<Rightarrow> SafeMap option" where
  "goroutines probe results [] = Some results"
| "goroutines probe results ((k, domain) # gs) =
     (case probe k domain of
        None \<Rightarrow> None
      | Some r \<Rightarrow>
          (case Ins results domain r of
             None \<Rightarrow> None
           | Some results' \<Rightarrow> goroutines probe results' gs))"

text \<open>
  \<open>processBatch\<close> launches one goroutine per domain and waits for all of them. The
  scheduler decides the order in which their \<open>Ins\<close> calls run: \<open>order\<close> rearranges the
  list of the launched goroutines (number in the batch, domain) into that order.
  The map \<open>output\<close> is shared with the caller, who sees the updated map.
\<close>

definition processBatch ::
  "probe \<Rightarrow> ((nat \<times> string) list \<Rightarrow> (nat \<times> string) list) \<Rightarrow>
   string list \<Rightarrow> gomap \<Rightarrow> trace \<Rightarrow> (gomap \<times> trace) option" where
  "processBatch probe order domains output tr =
     (let results = \<lparr>v = output\<rparr>;
          tr' = tr\<lparr>printed := printed tr @ [domains], launched := launched tr @ domains\<rparr>
      in case goroutines probe results (order (zip [0..<length domains] domains)) of
           None \<Rightarrow> None
         | Some results' \<Rightarrow> Some (v results', tr'))"

text \<open>
  The loop of \<open>checker\<close>, from the value \<open>i\<close> of its counter. \<open>sched i\<close> is the order the
  scheduler gives the batch that starts at \<open>i\<close>; the goroutine of the domain at
  position \<open>i + j\<close> of the list is goroutine number \<open>i + j\<close> of the run.
\<close>

function checker_loop ::
  "probe \<Rightarrow> (nat \<Rightarrow> (nat \<times> string) list \<Rightarrow> (nat \<times> string) list) \<Rightarrow>
   string list \<Rightarrow> nat \<Rightarrow> gomap \<Rightarrow> trace \<Rightarrow> (gomap \<times> trace) option" where
  "checker_loop probe sched domainsList i output tr =
     (if i < length domainsList then
        (case (if i + concurrent > length domainsList
               then processBatch (\<lambda>j. probe (i + j)) (sched i)
                      (drop i domainsList) output tr
               else processBatch (\<lambda>j. probe (i + j)) (sched i)
                      (take concurrent (drop i domainsList)) output tr) of
           None \<Rightarrow> None
         | Some (output', tr') \<Rightarrow>
             checker_loop probe sched domainsList (i + concurrent) output' tr')
      else Some (output, tr))"
  by pat_completeness auto
termination
  by (relation "measure (\<lambda>(probe, sched, domainsList, i, output, tr). length domainsList - i)")
     (auto simp: concurrent_def)

declare checker_loop.simps [simp del]

definition checker ::
  "probe \<Rightarrow> (nat \<Rightarrow> (nat \<times> string) list \<Rightarrow> (nat \<times> string) list) \<Rightarrow>
   string list \<Rightarrow> (gomap \<times> trace) option" where
  "checker probe sched domainsList =
     checker_loop probe sched domainsList 0 (Some Map.empty) \<lparr>printed = [], launched = []\<rparr>"

text \<open>
  A scheduler may run the goroutines of a batch in any order, and runs each once:
  every \<open>sched i\<close> permutes its argument.
\<close>

definition fair :: "(nat \<Rightarrow> (nat \<times> string) list \<Rightarrow> (nat \<times> string) list) \<Rightarrow> bool" where
  "fair sched = (\<forall>i gs. mset (sched i gs) = mset gs)"

text \<open>Every probe of the run returns: goroutine \<open>k\<close> probes the domain at position \<open>k\<close>.\<close>

definition probes_return :: "probe \<Rightarrow> string list \<Rightarrow> bool" where
  "probes_return probe domainsList =
     list_all (\<lambda>(k, domain). probe k domain \<noteq> None)
       (zip [0..<length domainsList] domainsList)"

section \<open>The specification's reading of the batches and of the day count\<close>

text \<open>
  The partition the specification describes: consecutive groups of \<open>n\<close> elements, the
  last group holding what remains.
\<close>

function groups :: "nat \<Rightarrow> 'a list \<Rightarrow> 'a list list" where
  "groups n xs = (if n = 0 \<or> xs = [] then [] else take n xs # groups n (drop n xs))"
  by pat_completeness auto
termination
  by (relation "measure (\<lambda>(n, xs). length xs)") auto

declare groups.simps [simp del]

text \<open>
  Groups processed one after the other, in the order of the list: a group starts on
  the map and the trace the group before it left when all of its goroutines were
  done. \<open>i\<close> is the position in the input of the first domain of the first group.
\<close>

fun run_groups ::
  "probe \<Rightarrow> (nat \<Rightarrow> (nat \<times> string) list \<Rightarrow> (nat \<times> string) list) \<Rightarrow>
   nat \<Rightarrow> string list list \<Rightarrow> gomap \<Rightarrow> trace \<Rightarrow> (gomap \<times> trace) option" where
  "run_groups probe sched i [] output tr = Some (output, tr)"
| "run_groups probe sched i (g # gs) output tr =
     (case processBatch (\<lambda>j. probe (i + j)) (sched i) g output tr of
        None \<Rightarrow> None
      | Some (output', tr') \<Rightarrow> run_groups probe sched (i + length g) gs output' tr')"

text \<open>
  The day count as the specification words it: the exact quotient of
  \<open>notAfter - now\<close> by 24 hours, rounded toward zero, as a base-10 integer.
\<close>

definition days_toward_zero :: "int \<Rightarrow> int \<Rightarrow> string" where
  "days_toward_zero notAfter now =
     (let q = quo (notAfter - now) (24 * Hour)
      in (if q < 0 then ''-'' else []) @ decimal \<bar>q\<bar>)"

section \<open>Example inputs\<close>

text \<open>Twelve domains, one of them twice: a batch of ten and a batch of two.\<close>

definition example_domains :: "string list" where
  "example_domains =
     [''a.example'', ''b.example'', ''c.example'', ''d.example'', ''e.example'',
      ''f.example'', ''g.example'', ''h.example'', ''i.example'', ''j.example'',
      ''k.example'', ''a.example'']"

text \<open>A probe whose answer depends on the goroutine, and one that depends on the domain only.\<close>

definition example_probe :: probe where
  "example_probe = (\<lambda>k domain. Some (decimal (int k)))"

definition example_stub :: "string \<Rightarrow> string" where
  "example_stub domain = ''30''"

section \<open>Properties of the result map\<close>

lemma Ins_all_allocated:
  "v results = Some m \<Longrightarrow>
   \<exists>m'. Ins_all results kvs = Some (results\<lparr>v := Some m'\<rparr>) \<and>
        (\<forall>k. k \<notin> fst ` set kvs \<longrightarrow> m' k = m k)"
proof (induction kvs arbitrary: results m)
  case Nil
  then show ?case by (intro exI [of _ m]) simp
next
  case (Cons kv kvs)
  obtain key val where kv: "kv = (key, val)" by (cases kv)
  let ?r = "results\<lparr>v := Some (m(key \<mapsto> val))\<rparr>"
  have "v ?r = Some (m(key \<mapsto> val))" by simp
  from Cons.IH [OF this] obtain m' where
    m': "Ins_all ?r kvs = Some (?r\<lparr>v := Some m'\<rparr>)"
        "\<forall>k. k \<notin> fst ` set kvs \<longrightarrow> m' k = (m(key \<mapsto> val)) k"
    by blast
  show ?case
  proof (intro exI [of _ m'] conjI allI impI)
    show "Ins_all results (kv # kvs) = Some (results\<lparr>v := Some m'\<rparr>)"
      using Cons.prems m'(1) by (simp add: kv Ins_def)
  next
    fix k assume "k \<notin> fst ` set (kv # kvs)"
    then have "k \<noteq> key" "k \<notin> fst ` set kvs" by (auto simp: kv)
    with m'(2) show "m' k = m k" by simp
  qed
qed

text \<open>
  C6. On a receiver whose map is allocated (as \<open>processBatch\<close> builds it), \<open>Ins\<close> of a
  key and a value returns normally and \<open>Retrieve\<close> of that key then returns that value,
  whatever entry the key had before. \<open>Retrieve\<close> of a key that has no entry returns the
  empty string; and after any sequence of \<open>Ins\<close> calls on a freshly made map, a key
  that none of them inserted reads as the empty string.
\<close>

theorem Ins_then_Retrieve:
  "(v results = Some m \<longrightarrow>
      (\<exists>results'. Ins results key val = Some results' \<and> Retrieve results' key = val) \<and>
      (m key = None \<longrightarrow> Retrieve results key = [])) \<and>
   (key \<notin> fst ` set kvs \<longrightarrow>
      (\<exists>results'. Ins_all \<lparr>v = Some Map.empty\<rparr> kvs = Some results' \<and>
                  Retrieve results' key = []))"
proof (intro conjI impI)
  assume "v results = Some m"
  then show "\<exists>results'. Ins results key val = Some results' \<and> Retrieve results' key = val"
    by (simp add: Ins_def Retrieve_def)
next
  assume "v results = Some m" "m key = None"
  then show "Retrieve results key = []"
    by (simp add: Retrieve_def)
next
  assume absent: "key \<notin> fst ` set kvs"
  have "v \<lparr>v = Some Map.empty\<rparr> = Some Map.empty" by simp
  from Ins_all_allocated [OF this, of kvs] obtain m' where
    "Ins_all \<lparr>v = Some Map.empty\<rparr> kvs = Some (\<lparr>v = Some Map.empty\<rparr>\<lparr>v := Some m'\<rparr>)"
    "\<forall>k. k \<notin> fst ` set kvs \<longrightarrow> m' k = None"
    by auto
  with absent show "\<exists>results'. Ins_all \<lparr>v = Some Map.empty\<rparr> kvs = Some results' \<and>
                      Retrieve results' key = []"
    by (simp add: Retrieve_def)
qed

theorem Ins_then_Retrieve_witness:
  "v \<lparr>v = Some [''a.example'' \<mapsto> ''12'']\<rparr> = Some [''a.example'' \<mapsto> ''12''] \<and>
   (\<exists>results'. Ins \<lparr>v = Some [''a.example'' \<mapsto> ''12'']\<rparr> ''a.example'' ''30'' = Some results' \<and>
               Retrieve results' ''a.example'' = ''30'') \<and>
   [''a.example'' \<mapsto> ''12''] ''b.example'' = None \<and>
   Retrieve \<lparr>v = Some [''a.example'' \<mapsto> ''12'']\<rparr> ''b.example'' = [] \<and>
   ''b.example'' \<notin> fst ` set [(''a.example'', ''12''), (''c.example'', ''7'')] \<and>
   (\<exists>results'. Ins_all \<lparr>v = Some Map.empty\<rparr> [(''a.example'', ''12''), (''c.example'', ''7'')]
                  = Some results' \<and>
               Retrieve results' ''b.example'' = [])"
proof -
  let ?m = "[''a.example'' \<mapsto> ''12'']"
  let ?r = "\<lparr>v = Some ?m\<rparr>"
  let ?kvs = "[(''a.example'', ''12''), (''c.example'', ''7'')]"
  have h1: "v ?r = Some ?m" by simp
  have h2: "?m ''b.example'' = None" by simp
  have h3: "''b.example'' \<notin> fst ` set ?kvs" by simp
  note t1 = Ins_then_Retrieve [of ?r ?m "''a.example''" "''30''" "[]"]
  note t2 = Ins_then_Retrieve [of ?r ?m "''b.example''" "[]" ?kvs]
  from t1 h1 have c1: "\<exists>results'. Ins ?r ''a.example'' ''30'' = Some results' \<and>
      Retrieve results' ''a.example'' = ''30''" by blast
  from t2 h1 h2 have c2: "Retrieve ?r ''b.example'' = []" by blast
  from t2 h3 have c3: "\<exists>results'. Ins_all \<lparr>v = Some Map.empty\<rparr> ?kvs = Some results' \<and>
      Retrieve results' ''b.example'' = []" by blast
  from h1 h2 h3 c1 c2 c3 show ?thesis by blast
qed

text \<open>
  C9. \<open>Ins\<close> of a key changes the entry of that key only: when it returns, \<open>Retrieve\<close>
  of every other key gives what it gave before the call.
\<close>

theorem Ins_frame:
  "Ins results key val = Some results' \<Longrightarrow> k' \<noteq> key \<Longrightarrow>
   Retrieve results' k' = Retrieve results k'"
  by (auto simp: Ins_def Retrieve_def split: option.splits)

theorem Ins_frame_witness:
  "Ins \<lparr>v = Some [''a.example'' \<mapsto> ''12'']\<rparr> ''b.example'' ''30''
     = Some \<lparr>v = Some [''a.example'' \<mapsto> ''12'', ''b.example'' \<mapsto> ''30'']\<rparr> \<and>
   ''a.example'' \<noteq> ''b.example'' \<and>
   Retrieve \<lparr>v = Some [''a.example'' \<mapsto> ''12'', ''b.example'' \<mapsto> ''30'']\<rparr> ''a.example''
     = Retrieve \<lparr>v = Some [''a.example'' \<mapsto> ''12'']\<rparr> ''a.example''"
proof -
  have h1: "Ins \<lparr>v = Some [''a.example'' \<mapsto> ''12'']\<rparr> ''b.example'' ''30''
     = Some \<lparr>v = Some [''a.example'' \<mapsto> ''12'', ''b.example'' \<mapsto> ''30'']\<rparr>"
    by (simp add: Ins_def)
  have h2: "''a.example'' \<noteq> ''b.example''" by simp
  from Ins_frame [OF h1 h2] h1 h2 show ?thesis by blast
qed

section \<open>Properties of the probe\<close>

lemma round_even_nearest:
  "\<bar>of_int (round_even x) - x\<bar> \<le> 1 / 2 \<and>
   (\<bar>of_int (round_even x) - x\<bar> = 1 / 2 \<longrightarrow> even (round_even x))"
proof -
  let ?n = "\<lfloor>x\<rfloor>"
  let ?r = "x - of_int ?n"
  have lo: "0 \<le> ?r" and hi: "?r < 1" by linarith+
  consider "?r < 1 / 2" | "1 / 2 < ?r" | "?r = 1 / 2" "even ?n" | "?r = 1 / 2" "odd ?n"
    by linarith
  then show ?thesis
  proof cases
    case 1
    then have "round_even x = ?n" by (simp add: round_even_def Let_def)
    with 1 lo show ?thesis by simp
  next
    case 2
    then have "round_even x = ?n + 1" by (simp add: round_even_def Let_def)
    with 2 hi show ?thesis by simp
  next
    case 3
    then have "round_even x = ?n" by (simp add: round_even_def Let_def)
    with 3 show ?thesis by simp
  next
    case 4
    then have "round_even x = ?n + 1" by (simp add: round_even_def Let_def)
    with 4 show ?thesis by simp
  qed
qed

lemma round_even_nonneg: "0 \<le> x \<Longrightarrow> 0 \<le> round_even x"
  by (simp add: round_even_def Let_def)

lemma bits_nonneg: "0 \<le> bits n"
proof (induction n rule: bits.induct)
  case (1 n)
  then show ?case by (subst bits.simps) simp
qed

lemma bits_pos: "0 < n \<Longrightarrow> 1 \<le> bits n"
  using bits_nonneg [of "n div 2"] by (subst bits.simps) simp

lemma bits_bounds:
  "0 < n \<Longrightarrow> 2 ^ nat (bits n - 1) \<le> n \<and> n < 2 ^ nat (bits n)"
proof (induction n rule: bits.induct)
  case (1 n)
  show ?case
  proof (cases "n = 1")
    case True
    then show ?thesis by (simp add: bits.simps [of 1] bits.simps [of 0])
  next
    case False
    with "1.prems" have half: "0 < n div 2" by simp
    let ?b = "bits (n div 2)"
    from "1.IH" [OF _ half] "1.prems"
    have IH: "2 ^ nat (?b - 1) \<le> n div 2" "n div 2 < 2 ^ nat ?b" by simp_all
    have b1: "1 \<le> ?b" using half by (rule bits_pos)
    have bn: "bits n = 1 + ?b" using "1.prems" by (subst bits.simps) simp
    have p: "(2::int) ^ nat ?b = 2 * 2 ^ nat (?b - 1)"
      using b1 by (metis Suc_nat_eq_nat_zadd1 add.commute diff_add_cancel diff_ge_0_iff_ge power_Suc)
    have p2: "(2::int) ^ nat (1 + ?b) = 2 * 2 ^ nat ?b"
      using b1 by (simp add: nat_add_distrib)
    have "2 * (n div 2) \<le> n" "n < 2 * (n div 2) + 2" by simp_all
    with IH p p2 show ?thesis by (simp add: bn)
  qed
qed

lemma pow2_powi: "pow2 e = 2 powi e"
  by (simp add: pow2_def power_int_def inverse_eq_divide power_one_over)

lemma pow2_pos: "0 < pow2 e"
  by (simp add: pow2_powi)

lemma pow2_add: "pow2 (a + b) = pow2 a * pow2 b"
  by (simp add: pow2_powi power_int_add)

lemma ilog2_lower:
  assumes "0 < x"
  shows "pow2 (ilog2 x) \<le> x"
proof -
  obtain p q where pq: "quotient_of x = (p, q)" by (cases "quotient_of x")
  then have q: "0 < q" by (rule quotient_of_denom_pos)
  from pq have x: "x = of_int p / of_int q" by (rule quotient_of_div)
  with assms q have p: "0 < p" by (simp add: zero_less_divide_iff)
  let ?k = "bits p - bits q"
  show ?thesis
  proof (cases "pow2 ?k \<le> x")
    case True
    then show ?thesis by (simp add: ilog2_def pq Let_def)
  next
    case False
    then have il: "ilog2 x = ?k - 1" by (simp add: ilog2_def pq Let_def)
    from bits_bounds [OF p] have lo: "(2::int) ^ nat (bits p - 1) \<le> p" by simp
    from bits_bounds [OF q] have hi: "q < (2::int) ^ nat (bits q)" by simp
    have bp: "1 \<le> bits p" and bq: "1 \<le> bits q" using p q by (simp_all add: bits_pos)
    have "?k - 1 = (bits p - 1) + (- bits q)" by simp
    then have "pow2 (?k - 1) = pow2 (bits p - 1) * pow2 (- bits q)"
      by (simp only: pow2_add)
    also have "pow2 (bits p - 1) = of_int (2 ^ nat (bits p - 1))"
      using bp by (simp add: pow2_def)
    also have "pow2 (- bits q) = 1 / of_int (2 ^ nat (bits q))"
      using bq by (simp add: pow2_def)
    finally have e: "pow2 (?k - 1) = of_int (2 ^ nat (bits p - 1)) / of_int (2 ^ nat (bits q))"
      by simp
    have "of_int (2 ^ nat (bits p - 1)) / of_int (2 ^ nat (bits q)) \<le> (of_int p :: rat) / of_int q"
    proof (rule frac_le)
      show "(0::rat) \<le> of_int p" using p by simp
      show "(of_int (2 ^ nat (bits p - 1)) :: rat) \<le> of_int p" using lo by (simp only: of_int_le_iff)
      show "(0::rat) < of_int q" using q by simp
      show "(of_int q :: rat) \<le> of_int (2 ^ nat (bits q))" using hi by (simp only: of_int_le_iff)
    qed
    with e x il show ?thesis by simp
  qed
qed

lemma ilog2_upper:
  assumes "0 < x"
  shows "x < pow2 (ilog2 x + 1)"
proof -
  obtain p q where pq: "quotient_of x = (p, q)" by (cases "quotient_of x")
  then have q: "0 < q" by (rule quotient_of_denom_pos)
  from pq have x: "x = of_int p / of_int q" by (rule quotient_of_div)
  with assms q have p: "0 < p" by (simp add: zero_less_divide_iff)
  let ?k = "bits p - bits q"
  show ?thesis
  proof (cases "pow2 ?k \<le> x")
    case False
    then show ?thesis by (simp add: ilog2_def pq Let_def)
  next
    case True
    then have il: "ilog2 x = ?k" by (simp add: ilog2_def pq Let_def)
    from bits_bounds [OF p] have hi: "p < (2::int) ^ nat (bits p)" by simp
    from bits_bounds [OF q] have lo: "(2::int) ^ nat (bits q - 1) \<le> q" by simp
    have bp: "1 \<le> bits p" and bq: "1 \<le> bits q" using p q by (simp_all add: bits_pos)
    have "?k + 1 = bits p + (- (bits q - 1))" by simp
    then have "pow2 (?k + 1) = pow2 (bits p) * pow2 (- (bits q - 1))"
      by (simp only: pow2_add)
    also have "pow2 (bits p) = of_int (2 ^ nat (bits p))"
      using bp by (simp add: pow2_def)
    also have "pow2 (- (bits q - 1)) = 1 / of_int (2 ^ nat (bits q - 1))"
      using bq by (simp add: pow2_def)
    finally have e: "pow2 (?k + 1) = of_int (2 ^ nat (bits p)) / of_int (2 ^ nat (bits q - 1))"
      by simp
    have "(of_int p :: rat) / of_int q < of_int (2 ^ nat (bits p)) / of_int (2 ^ nat (bits q - 1))"
    proof (rule frac_less)
      show "(0::rat) \<le> of_int p" using p by simp
      show "(of_int p :: rat) < of_int (2 ^ nat (bits p))" using hi by (simp only: of_int_less_iff)
      show "(0::rat) < of_int (2 ^ nat (bits q - 1))" by simp
      show "(of_int (2 ^ nat (bits q - 1)) :: rat) \<le> of_int q" using lo by (simp only: of_int_le_iff)
    qed
    with e x il show ?thesis by simp
  qed
qed

lemma round_even_int: "round_even (of_int k) = k"
  by (simp add: round_even_def)

lemma f64_error:
  assumes "x \<noteq> 0"
  shows "\<bar>f64 x - x\<bar> \<le> \<bar>x\<bar> / 2 ^ 53"
proof -
  let ?a = "\<bar>x\<bar>"
  let ?e = "ilog2 ?a - 52"
  let ?m = "round_even (?a / pow2 ?e)"
  from assms have a: "0 < ?a" by simp
  have f: "f64 x = sgn x * of_int ?m * pow2 ?e"
    using assms by (simp add: f64_def Let_def)
  have "sgn x * (of_int ?m * pow2 ?e - ?a) = sgn x * of_int ?m * pow2 ?e - sgn x * ?a"
    by (simp add: algebra_simps)
  also have "sgn x * ?a = x" by (rule sgn_mult_abs)
  finally have "f64 x - x = sgn x * (of_int ?m * pow2 ?e - ?a)"
    by (simp only: f)
  then have "\<bar>f64 x - x\<bar> = \<bar>of_int ?m * pow2 ?e - ?a\<bar>"
    using assms by (simp add: abs_mult abs_sgn_eq)
  also have "of_int ?m * pow2 ?e - ?a = pow2 ?e * (of_int ?m - ?a / pow2 ?e)"
    using pow2_pos [of ?e] by (simp add: algebra_simps)
  also have "\<bar>pow2 ?e * (of_int ?m - ?a / pow2 ?e)\<bar> = pow2 ?e * \<bar>of_int ?m - ?a / pow2 ?e\<bar>"
    using pow2_pos [of ?e] by (simp add: abs_mult)
  also have "\<dots> \<le> pow2 ?e * (1 / 2)"
    using round_even_nearest [of "?a / pow2 ?e"] pow2_pos [of ?e]
    by (intro mult_left_mono) simp_all
  also have "pow2 ?e * (1 / 2) = pow2 (ilog2 ?a) / 2 ^ 53"
  proof -
    have "ilog2 ?a - 52 = ilog2 ?a + (- 52)" by simp
    then have "pow2 ?e = pow2 (ilog2 ?a) * pow2 (- 52)" by (simp only: pow2_add)
    then show ?thesis by (simp add: pow2_def)
  qed
  also have "\<dots> \<le> ?a / 2 ^ 53"
    using ilog2_lower [OF a] by (simp add: divide_right_mono)
  finally show ?thesis .
qed

lemma pow2_mono: "a \<le> b \<Longrightarrow> pow2 a \<le> pow2 b"
  by (simp add: pow2_powi power_int_increasing)

lemma f64_int:
  assumes "\<bar>n\<bar> < 2 ^ 53"
  shows "f64 (of_int n) = of_int n"
proof (cases "n = 0")
  case True
  then show ?thesis by (simp add: f64_def)
next
  case False
  let ?a = "\<bar>of_int n :: rat\<bar>"
  let ?e = "ilog2 ?a - 52"
  from False have a: "0 < ?a" by simp
  have small: "ilog2 ?a \<le> 52"
  proof (rule ccontr)
    assume "\<not> ilog2 ?a \<le> 52"
    then have "53 \<le> ilog2 ?a" by simp
    then have "pow2 53 \<le> pow2 (ilog2 ?a)" by (rule pow2_mono)
    also have "\<dots> \<le> ?a" by (rule ilog2_lower [OF a])
    finally have "(2::rat) ^ 53 \<le> of_int \<bar>n\<bar>" by (simp add: pow2_def)
    then have "(of_int (2 ^ 53) :: rat) \<le> of_int \<bar>n\<bar>" by simp
    then have "(2::int) ^ 53 \<le> \<bar>n\<bar>" by (simp only: of_int_le_iff)
    with assms show False by simp
  qed
  then have e: "?e \<le> 0" by simp
  define k where "k = nat (- ?e)"
  have p: "pow2 ?e = 1 / 2 ^ k"
    using e by (cases "?e = 0") (simp_all add: pow2_def k_def)
  have "?a / pow2 ?e = of_int (\<bar>n\<bar> * 2 ^ k)"
    by (simp add: p)
  then have m: "round_even (?a / pow2 ?e) = \<bar>n\<bar> * 2 ^ k"
    by (simp only: round_even_int)
  have "of_int (round_even (?a / pow2 ?e)) * pow2 ?e = (of_int (\<bar>n\<bar> * 2 ^ k) :: rat) * pow2 ?e"
    by (simp only: m)
  also have "\<dots> = (of_int (\<bar>n\<bar> * 2 ^ k) :: rat) * (1 / 2 ^ k)"
    by (simp only: p)
  also have "\<dots> = of_int \<bar>n\<bar>" by simp
  finally have mag: "of_int (round_even (?a / pow2 ?e)) * pow2 ?e = (of_int \<bar>n\<bar> :: rat)" .
  have "f64 (of_int n) = sgn (of_int n) * (of_int (round_even (?a / pow2 ?e)) * pow2 ?e)"
    using False by (simp add: f64_def Let_def)
  also have "\<dots> = sgn (of_int n) * of_int \<bar>n\<bar>"
    by (simp only: mag)
  also have "\<dots> = of_int n"
    by (metis of_int_abs sgn_mult_abs)
  finally show ?thesis .
qed

lemma f64_rel: "\<bar>f64 x - x\<bar> \<le> \<bar>x\<bar> / 2 ^ 53"
proof (cases "x = 0")
  case True
  then show ?thesis by (simp add: f64_def)
next
  case False
  then show ?thesis by (rule f64_error)
qed

lemma quo_rem: "d = quo d Hour * Hour + rem d Hour"
proof -
  have q: "quo d Hour * Hour = sgn d * ((\<bar>d\<bar> div 3600000000000) * 3600000000000)"
    by (simp add: quo_def Hour_def mult.assoc)
  have r: "rem d Hour = sgn d * (\<bar>d\<bar> mod 3600000000000)"
    by (simp add: rem_def Hour_def)
  have "quo d Hour * Hour + rem d Hour
          = sgn d * ((\<bar>d\<bar> div 3600000000000) * 3600000000000 + \<bar>d\<bar> mod 3600000000000)"
    by (simp only: q r distrib_left)
  also have "(\<bar>d\<bar> div 3600000000000) * 3600000000000 + \<bar>d\<bar> mod 3600000000000 = \<bar>d\<bar>"
    by (rule div_mult_mod_eq)
  also have "sgn d * \<bar>d\<bar> = d" by (rule sgn_mult_abs)
  finally show ?thesis by simp
qed

lemma rem_small: "\<bar>rem d Hour\<bar> < Hour \<and> \<bar>rem d Hour\<bar> \<le> \<bar>d\<bar>"
proof -
  have "\<bar>rem d Hour\<bar> = \<bar>d\<bar> mod Hour"
    by (cases "d = 0") (simp_all add: rem_def Hour_def abs_mult abs_sgn_eq)
  moreover have "\<bar>d\<bar> mod Hour < Hour" by (simp add: Hour_def)
  moreover have "\<bar>d\<bar> mod Hour \<le> \<bar>d\<bar>" by (simp add: Hour_def zmod_le_nonneg_dividend)
  ultimately show ?thesis by simp
qed

lemma quo_bound:
  assumes "minDuration \<le> d" "d \<le> maxDuration"
  shows "\<bar>quo d Hour\<bar> < 2 ^ 53"
proof -
  have "\<bar>quo d Hour\<bar> = \<bar>d\<bar> div Hour"
    by (cases "d = 0") (simp_all add: quo_def Hour_def abs_mult abs_sgn_eq)
  also have "\<dots> \<le> 9223372036854775808 div Hour"
    using assms by (intro zdiv_mono1) (simp_all add: Hour_def minDuration_def maxDuration_def)
  also have "\<dots> < 2 ^ 53" by (simp add: Hour_def)
  finally show ?thesis .
qed

lemma chain_error:
  fixes Hx S s x :: rat
  assumes F1: "\<bar>S - Hx\<bar> \<le> \<bar>Hx\<bar> / 2 ^ 53"
    and F2: "\<bar>s - S\<bar> \<le> \<bar>S\<bar> / 2 ^ 53"
    and F3: "\<bar>x - s / 24\<bar> \<le> \<bar>s / 24\<bar> / 2 ^ 53"
  shows "\<bar>x - Hx / 24\<bar> \<le> \<bar>Hx / 24\<bar> / 2 ^ 51"
proof -
  define u where "u = \<bar>Hx\<bar>"
  have u: "0 \<le> u" by (simp add: u_def)
  have S: "\<bar>S\<bar> \<le> u + u / 2 ^ 53" using F1 unfolding u_def by linarith
  have sS: "\<bar>s - S\<bar> \<le> (u + u / 2 ^ 53) / 2 ^ 53"
    using F2 S by (meson divide_right_mono order_trans zero_le_numeral zero_le_power)
  have sH: "\<bar>s - Hx\<bar> \<le> (u + u / 2 ^ 53) / 2 ^ 53 + u / 2 ^ 53"
    using sS F1 unfolding u_def by linarith
  have s: "\<bar>s\<bar> \<le> u + ((u + u / 2 ^ 53) / 2 ^ 53 + u / 2 ^ 53)"
    using sH unfolding u_def by linarith
  have "\<bar>x - s / 24\<bar> \<le> \<bar>s\<bar> / 24 / 2 ^ 53" using F3 by simp
  also have "\<dots> \<le> (u + ((u + u / 2 ^ 53) / 2 ^ 53 + u / 2 ^ 53)) / 24 / 2 ^ 53"
    using s by (simp add: divide_right_mono)
  finally have xs: "\<bar>x - s / 24\<bar> \<le> (u + ((u + u / 2 ^ 53) / 2 ^ 53 + u / 2 ^ 53)) / 24 / 2 ^ 53" .
  have "x - Hx / 24 = (x - s / 24) + (s - Hx) / 24" by (simp add: diff_divide_distrib)
  then have "\<bar>x - Hx / 24\<bar> \<le> \<bar>x - s / 24\<bar> + \<bar>(s - Hx) / 24\<bar>"
    by (simp only: abs_triangle_ineq)
  then have "\<bar>x - Hx / 24\<bar> \<le> \<bar>x - s / 24\<bar> + \<bar>s - Hx\<bar> / 24" by simp
  also have "\<dots> \<le> (u + ((u + u / 2 ^ 53) / 2 ^ 53 + u / 2 ^ 53)) / 24 / 2 ^ 53
                    + ((u + u / 2 ^ 53) / 2 ^ 53 + u / 2 ^ 53) / 24"
    using xs sH by (simp add: add_mono divide_right_mono)
  also have "\<dots> \<le> u / 24 / 2 ^ 51"
    using u by simp
  finally show ?thesis by (simp add: u_def)
qed

lemma Duration_days_accuracy:
  assumes "minDuration \<le> d" "d \<le> maxDuration"
  shows "\<bar>f64 (Duration_Hours d / 24) - of_int d / 86400000000000\<bar>
           \<le> \<bar>of_int d / 86400000000000\<bar> / 2 ^ 51"
proof -
  let ?h = "quo d Hour" and ?ns = "rem d Hour"
  let ?A = "of_int ?ns / 3600000000000 :: rat"
  let ?Hx = "of_int d / 3600000000000 :: rat"
  let ?S = "of_int ?h + f64 ?A"
  have fh: "f64 (of_int ?h) = of_int ?h"
    by (rule f64_int [OF quo_bound [OF assms]])
  have "\<bar>?ns\<bar> < 2 ^ 53" using rem_small [of d] by (simp add: Hour_def)
  then have fns: "f64 (of_int ?ns) = of_int ?ns" by (rule f64_int)
  have hours: "Duration_Hours d = f64 ?S"
    by (simp add: Duration_Hours_def Let_def fh fns)
  have "of_int d = (of_int (?h * Hour + ?ns) :: rat)" using quo_rem [of d] by simp
  then have Hx: "?Hx = of_int ?h + ?A" by (simp add: Hour_def add_divide_distrib)
  have AH: "\<bar>?A\<bar> \<le> \<bar>?Hx\<bar>"
  proof -
    have "(of_int \<bar>?ns\<bar> :: rat) \<le> of_int \<bar>d\<bar>" using rem_small [of d] by (simp only: of_int_le_iff)
    then show ?thesis by (simp add: divide_right_mono)
  qed
  have "?S - ?Hx = f64 ?A - ?A" by (simp add: Hx)
  then have "\<bar>?S - ?Hx\<bar> = \<bar>f64 ?A - ?A\<bar>" by (rule arg_cong)
  also have "\<dots> \<le> \<bar>?A\<bar> / 2 ^ 53" by (rule f64_rel)
  also have "\<dots> \<le> \<bar>?Hx\<bar> / 2 ^ 53" using AH by (simp add: divide_right_mono)
  finally have F1: "\<bar>?S - ?Hx\<bar> \<le> \<bar>?Hx\<bar> / 2 ^ 53" .
  note F2 = f64_rel [of ?S]
  note F3 = f64_rel [of "f64 ?S / 24"]
  from chain_error [OF F1 F2 F3] show ?thesis by (simp add: hours)
qed

lemma Time_Sub_range: "minDuration \<le> Time_Sub t u \<and> Time_Sub t u \<le> maxDuration"
  by (simp add: Time_Sub_def Let_def minDuration_def maxDuration_def)

lemma Time_Sub_exact:
  "minDuration \<le> t - u \<Longrightarrow> t - u \<le> maxDuration \<Longrightarrow> Time_Sub t u = t - u"
  by (simp add: Time_Sub_def Let_def)

lemma days_30: "FormatFloat_f_0 (f64 (Duration_Hours 2592000000000000 / 24)) = ''30''"
  by code_simp

text \<open>
  C4. When the dial or the handshake fails, \<open>checkDomain\<close> returns normally, and what it
  returns is the text of the error: the failure reaches the caller as the result
  string, the only thing the function returns.
\<close>

theorem checkDomain_error:
  "Dial (domain @ '':443'') = Failed err \<Longrightarrow> checkDomain Dial Now domain = Some err"
  by (simp add: checkDomain_def)

theorem checkDomain_error_witness:
  "(\<lambda>host. Failed (''dial tcp '' @ host @ '': connect: connection refused''))
     (''a.example'' @ '':443'')
     = Failed ''dial tcp a.example:443: connect: connection refused'' \<and>
   checkDomain (\<lambda>host. Failed (''dial tcp '' @ host @ '': connect: connection refused''))
     1700000000000000000 ''a.example''
     = Some ''dial tcp a.example:443: connect: connection refused''"
proof -
  have h: "(\<lambda>host. Failed (''dial tcp '' @ host @ '': connect: connection refused''))
     (''a.example'' @ '':443'')
     = Failed ''dial tcp a.example:443: connect: connection refused''" by simp
  from checkDomain_error [of "\<lambda>host. Failed (''dial tcp '' @ host @ '': connect: connection refused'')"
      "''a.example''" "''dial tcp a.example:443: connect: connection refused''" 1700000000000000000, OF h] h
  show ?thesis by blast
qed

text \<open>
  C8. When the handshake succeeds and the leaf certificate's \<open>NotAfter\<close> is exactly
  30 days (720 hours) after the reading of the clock, the result string is \<open>''30''\<close>.
\<close>

theorem checkDomain_30_days:
  "Dial (domain @ '':443'') = Connected (cert # rest) \<Longrightarrow>
   NotAfter cert = Now + 30 * (24 * Hour) \<Longrightarrow>
   checkDomain Dial Now domain = Some ''30''"
  by (simp add: checkDomain_def Time_Sub_def Hour_def minDuration_def maxDuration_def days_30)

theorem checkDomain_30_days_witness:
  "(\<lambda>host. Connected [\<lparr>NotAfter = 1702592000000000000\<rparr>]) (''a.example'' @ '':443'')
     = Connected (\<lparr>NotAfter = 1702592000000000000\<rparr> # []) \<and>
   NotAfter \<lparr>NotAfter = 1702592000000000000\<rparr> = 1700000000000000000 + 30 * (24 * Hour) \<and>
   checkDomain (\<lambda>host. Connected [\<lparr>NotAfter = 1702592000000000000\<rparr>])
     1700000000000000000 ''a.example'' = Some ''30''"
proof -
  let ?Dial = "\<lambda>host::string. Connected [\<lparr>NotAfter = 1702592000000000000\<rparr>]"
  have h1: "?Dial (''a.example'' @ '':443'') = Connected (\<lparr>NotAfter = 1702592000000000000\<rparr> # [])"
    by simp
  have h2: "NotAfter \<lparr>NotAfter = 1702592000000000000\<rparr> = 1700000000000000000 + 30 * (24 * Hour)"
    by (simp add: Hour_def)
  from checkDomain_30_days [of ?Dial "''a.example''" _ "[]" 1700000000000000000, OF h1 h2] h1 h2
  show ?thesis by blast
qed

text \<open>
  C3, as stated, fails: with \<open>NotAfter\<close> 42 hours (1.75 days) after the reading of the
  clock, \<open>checkDomain\<close> returns \<open>''2''\<close>, and the quotient rounded toward zero is 1.
\<close>

theorem checkDomain_truncation_counterexample:
  "checkDomain (\<lambda>host. Connected [\<lparr>NotAfter = 1700151200000000000\<rparr>])
     1700000000000000000 ''a.example'' = Some ''2'' \<and>
   days_toward_zero 1700151200000000000 1700000000000000000 = ''1''"
  by code_simp

text \<open>
  C3, amended. When the handshake succeeds, the result string is the \<^verbatim>\<open>float64\<close>
  quotient \<open>x\<close> of the hours until \<open>NotAfter\<close> by 24, written in base 10 with no digit
  after the decimal point, after a minus sign when \<open>x\<close> is negative; the integer
  written is a nearest integer to the magnitude of \<open>x\<close>, and the even one when two
  integers are equally near. The quotient \<open>x\<close> is the exact quotient of the duration
  \<open>NotAfter - now\<close> by 24 hours up to a relative error of \<open>2\<^sup>-\<^sup>5\<^sup>1\<close>, the duration being
  \<open>NotAfter - now\<close> itself whenever that fits a \<^verbatim>\<open>Duration\<close>.
\<close>

theorem checkDomain_days:
  assumes "Dial (domain @ '':443'') = Connected (cert # rest)"
  shows "(\<exists>n. checkDomain Dial Now domain
               = Some ((if remaining_days cert Now < 0 then ''-'' else []) @ decimal n) \<and>
             0 \<le> n \<and> \<bar>of_int n - \<bar>remaining_days cert Now\<bar>\<bar> \<le> 1 / 2 \<and>
             (\<bar>of_int n - \<bar>remaining_days cert Now\<bar>\<bar> = 1 / 2 \<longrightarrow> even n)) \<and>
         \<bar>remaining_days cert Now - of_int (Time_Sub (NotAfter cert) Now) / 86400000000000\<bar>
           \<le> \<bar>of_int (Time_Sub (NotAfter cert) Now) / 86400000000000\<bar> / 2 ^ 51 \<and>
         (minDuration \<le> NotAfter cert - Now \<and> NotAfter cert - Now \<le> maxDuration \<longrightarrow>
            Time_Sub (NotAfter cert) Now = NotAfter cert - Now)"
proof (intro conjI impI)
  let ?x = "remaining_days cert Now"
  show "\<exists>n. checkDomain Dial Now domain = Some ((if ?x < 0 then ''-'' else []) @ decimal n) \<and>
             0 \<le> n \<and> \<bar>of_int n - \<bar>?x\<bar>\<bar> \<le> 1 / 2 \<and> (\<bar>of_int n - \<bar>?x\<bar>\<bar> = 1 / 2 \<longrightarrow> even n)"
  proof (intro exI [of _ "round_even \<bar>?x\<bar>"] conjI)
    show "checkDomain Dial Now domain
            = Some ((if ?x < 0 then ''-'' else []) @ decimal (round_even \<bar>?x\<bar>))"
      using assms by (simp add: checkDomain_def FormatFloat_f_0_def remaining_days_def)
    show "0 \<le> round_even \<bar>?x\<bar>" by (simp add: round_even_nonneg)
    show "\<bar>of_int (round_even \<bar>?x\<bar>) - \<bar>?x\<bar>\<bar> \<le> 1 / 2"
      using round_even_nearest [of "\<bar>?x\<bar>"] by blast
    show "\<bar>of_int (round_even \<bar>?x\<bar>) - \<bar>?x\<bar>\<bar> = 1 / 2 \<longrightarrow> even (round_even \<bar>?x\<bar>)"
      using round_even_nearest [of "\<bar>?x\<bar>"] by blast
  qed
next
  from Time_Sub_range [of "NotAfter cert" Now]
  show "\<bar>remaining_days cert Now - of_int (Time_Sub (NotAfter cert) Now) / 86400000000000\<bar>
           \<le> \<bar>of_int (Time_Sub (NotAfter cert) Now) / 86400000000000\<bar> / 2 ^ 51"
    unfolding remaining_days_def by (intro Duration_days_accuracy) simp_all
next
  assume "minDuration \<le> NotAfter cert - Now \<and> NotAfter cert - Now \<le> maxDuration"
  then show "Time_Sub (NotAfter cert) Now = NotAfter cert - Now"
    by (simp add: Time_Sub_exact)
qed

lemma example_days:
  "remaining_days \<lparr>NotAfter = 1700151200000000000\<rparr> 1700000000000000000 = 7 / 4"
  by code_simp

theorem checkDomain_days_witness:
  "(\<lambda>host. Connected [\<lparr>NotAfter = 1700151200000000000\<rparr>]) (''a.example'' @ '':443'')
     = Connected (\<lparr>NotAfter = 1700151200000000000\<rparr> # []) \<and>
   minDuration \<le> NotAfter \<lparr>NotAfter = 1700151200000000000\<rparr> - 1700000000000000000 \<and>
   NotAfter \<lparr>NotAfter = 1700151200000000000\<rparr> - 1700000000000000000 \<le> maxDuration \<and>
   Time_Sub (NotAfter \<lparr>NotAfter = 1700151200000000000\<rparr>) 1700000000000000000 = 151200000000000 \<and>
   remaining_days \<lparr>NotAfter = 1700151200000000000\<rparr> 1700000000000000000 = 7 / 4 \<and>
   (\<exists>n. checkDomain (\<lambda>host. Connected [\<lparr>NotAfter = 1700151200000000000\<rparr>])
          1700000000000000000 ''a.example'' = Some (decimal n) \<and>
        0 \<le> n \<and> \<bar>of_int n - (7 / 4 :: rat)\<bar> \<le> 1 / 2)"
proof -
  let ?Dial = "\<lambda>host::string. Connected [\<lparr>NotAfter = 1700151200000000000\<rparr>]"
  let ?c = "\<lparr>NotAfter = 1700151200000000000\<rparr>"
  have h: "?Dial (''a.example'' @ '':443'') = Connected (?c # [])"
    by simp
  have r1: "minDuration \<le> NotAfter ?c - 1700000000000000000"
    and r2: "NotAfter ?c - 1700000000000000000 \<le> maxDuration"
    by (simp_all add: minDuration_def maxDuration_def)
  note t = checkDomain_days [of ?Dial "''a.example''" ?c "[]" 1700000000000000000, OF h]
  from t r1 r2 have e: "Time_Sub (NotAfter ?c) 1700000000000000000 = 151200000000000"
    by simp
  let ?x = "remaining_days ?c 1700000000000000000"
  from t obtain n where
    n: "checkDomain ?Dial 1700000000000000000 ''a.example''
          = Some ((if ?x < 0 then ''-'' else []) @ decimal n)"
       "0 \<le> n" "\<bar>of_int n - \<bar>?x\<bar>\<bar> \<le> 1 / 2"
    by blast
  then have "checkDomain ?Dial 1700000000000000000 ''a.example'' = Some (decimal n) \<and>
        0 \<le> n \<and> \<bar>of_int n - (7 / 4 :: rat)\<bar> \<le> 1 / 2"
    by (simp add: example_days)
  then have "\<exists>n. checkDomain ?Dial 1700000000000000000 ''a.example'' = Some (decimal n) \<and>
        0 \<le> n \<and> \<bar>of_int n - (7 / 4 :: rat)\<bar> \<le> 1 / 2" ..
  with h r1 r2 e example_days show ?thesis by blast
qed

section \<open>Properties of the batch runner\<close>

lemma goroutines_returns:
  "v results = Some m \<Longrightarrow> list_all (\<lambda>(k, d). probe k d \<noteq> None) gs \<Longrightarrow>
   \<exists>m'. goroutines probe results gs = Some (results\<lparr>v := Some m'\<rparr>) \<and>
        (\<forall>d. if d \<in> snd ` set gs then (\<exists>k. (k, d) \<in> set gs \<and> m' d = probe k d)
             else m' d = m d)"
proof (induction gs arbitrary: results m)
  case Nil
  then show ?case by (intro exI [of _ m]) simp
next
  case (Cons g gs)
  obtain k d0 where g: "g = (k, d0)" by (cases g)
  from Cons.prems(2) obtain r where r: "probe k d0 = Some r" and rest: "list_all (\<lambda>(k, d). probe k d \<noteq> None) gs"
    by (auto simp: g)
  let ?r1 = "results\<lparr>v := Some (m(d0 \<mapsto> r))\<rparr>"
  have "v ?r1 = Some (m(d0 \<mapsto> r))" by simp
  from Cons.IH [OF this rest] obtain m' where
    run: "goroutines probe ?r1 gs = Some (?r1\<lparr>v := Some m'\<rparr>)" and
    ent: "\<forall>d. if d \<in> snd ` set gs then (\<exists>k. (k, d) \<in> set gs \<and> m' d = probe k d)
             else m' d = (m(d0 \<mapsto> r)) d"
    by blast
  show ?case
  proof (intro exI [of _ m'] conjI allI)
    show "goroutines probe results (g # gs) = Some (results\<lparr>v := Some m'\<rparr>)"
      using Cons.prems(1) r run by (simp add: g Ins_def)
  next
    fix d
    show "if d \<in> snd ` set (g # gs) then (\<exists>k. (k, d) \<in> set (g # gs) \<and> m' d = probe k d)
          else m' d = m d"
    proof (cases "d \<in> snd ` set gs")
      case True
      with ent obtain k' where k': "(k', d) \<in> set gs" "m' d = probe k' d" by metis
      then have "(k', d) \<in> set (g # gs)" "d \<in> snd ` set (g # gs)" by force+
      with k'(2) show ?thesis by auto
    next
      case False
      with ent have md: "m' d = (m(d0 \<mapsto> r)) d" by metis
      show ?thesis
      proof (cases "d = d0")
        case True
        with md r have "m' d = probe k d" by simp
        with True show ?thesis by (auto simp: g)
      next
        case neq: False
        with False have "d \<notin> snd ` set (g # gs)" by (auto simp: g)
        with md neq show ?thesis by simp
      qed
    qed
  qed
qed

lemma processBatch_returns:
  assumes perm: "mset (order (zip [0..<length b] b)) = mset (zip [0..<length b] b)"
    and ret: "\<forall>j<length b. probe j (b ! j) \<noteq> None"
  shows "\<exists>m'. processBatch probe order b (Some m) tr
            = Some (Some m', tr\<lparr>printed := printed tr @ [b], launched := launched tr @ b\<rparr>) \<and>
          (\<forall>d. if d \<in> set b then (\<exists>j<length b. b ! j = d \<and> m' d = probe j d)
               else m' d = m d)"
proof -
  let ?gs = "zip [0..<length b] b"
  have seteq: "set (order ?gs) = set ?gs" using perm by (rule mset_eq_setD)
  have mem: "\<And>j d. (j, d) \<in> set ?gs \<longleftrightarrow> j < length b \<and> b ! j = d"
  proof -
    fix j d
    show "(j, d) \<in> set ?gs \<longleftrightarrow> j < length b \<and> b ! j = d"
    proof
      assume "(j, d) \<in> set ?gs"
      then obtain i where "i < length b" "j = [0..<length b] ! i" "d = b ! i"
        by (auto simp: set_zip)
      then show "j < length b \<and> b ! j = d" by simp
    next
      assume "j < length b \<and> b ! j = d"
      then have "j < length ?gs" "?gs ! j = (j, d)" by simp_all
      then show "(j, d) \<in> set ?gs" by (metis nth_mem)
    qed
  qed
  have "list_all (\<lambda>(k, d). probe k d \<noteq> None) (order ?gs)"
    using ret by (auto simp: list_all_iff seteq mem)
  from goroutines_returns [of "\<lparr>v = Some m\<rparr>" m probe "order ?gs", OF _ this]
  obtain m' where
    run: "goroutines probe \<lparr>v = Some m\<rparr> (order ?gs) = Some (\<lparr>v = Some m\<rparr>\<lparr>v := Some m'\<rparr>)" and
    ent: "\<forall>d. if d \<in> snd ` set (order ?gs)
             then (\<exists>k. (k, d) \<in> set (order ?gs) \<and> m' d = probe k d)
             else m' d = m d"
    by auto
  have snd_eq: "snd ` set ?gs = set b"
  proof -
    have "map snd ?gs = b" by (simp add: map_snd_zip)
    then have "set (map snd ?gs) = set b" by (rule arg_cong)
    then show ?thesis by (simp only: set_map)
  qed
  show ?thesis
  proof (intro exI [of _ m'] conjI allI)
    show "processBatch probe order b (Some m) tr
            = Some (Some m', tr\<lparr>printed := printed tr @ [b], launched := launched tr @ b\<rparr>)"
      using run by (simp add: processBatch_def)
  next
    fix d
    from ent have "if d \<in> set b then (\<exists>k. (k, d) \<in> set ?gs \<and> m' d = probe k d) else m' d = m d"
      unfolding seteq snd_eq by metis
    then show "if d \<in> set b then (\<exists>j<length b. b ! j = d \<and> m' d = probe j d) else m' d = m d"
      by (auto simp: mem)
  qed
qed

lemma checker_loop_unfold:
  "checker_loop probe sched ds i output tr =
     (if i < length ds then
        (case processBatch (\<lambda>j. probe (i + j)) (sched i) (take concurrent (drop i ds)) output tr of
           None \<Rightarrow> None
         | Some (output', tr') \<Rightarrow> checker_loop probe sched ds (i + concurrent) output' tr')
      else Some (output, tr))"
proof (cases "i + concurrent > length ds")
  case True
  then have "take concurrent (drop i ds) = drop i ds" by simp
  with True show ?thesis
    by (subst checker_loop.simps) simp
next
  case False
  then show ?thesis
    by (subst checker_loop.simps) simp
qed

lemma groups_Nil: "groups n [] = []"
  by (simp add: groups.simps)

lemma groups_step: "0 < n \<Longrightarrow> xs \<noteq> [] \<Longrightarrow> groups n xs = take n xs # groups n (drop n xs)"
  by (subst groups.simps) simp

lemma checker_loop_groups:
  "checker_loop probe sched ds i out tr =
   run_groups probe sched i (groups concurrent (drop i ds)) out tr"
proof (induction probe sched ds i out tr rule: checker_loop.induct)
  case (1 probe sched ds i out tr)
  show ?case
  proof (cases "i < length ds")
    case False
    then show ?thesis
      by (subst checker_loop_unfold) (simp add: groups_Nil)
  next
    case True
    let ?b = "take concurrent (drop i ds)"
    have g: "groups concurrent (drop i ds) = ?b # groups concurrent (drop (i + concurrent) ds)"
      using True by (simp add: groups_step concurrent_def add.commute)
    show ?thesis
    proof (cases "processBatch (\<lambda>j. probe (i + j)) (sched i) ?b out tr")
      case None
      with True show ?thesis
        by (subst checker_loop_unfold) (simp add: g)
    next
      case (Some p)
      obtain output' tr' where p: "p = (output', tr')" by (cases p)
      have same: "(if i + concurrent > length ds
               then processBatch (\<lambda>j. probe (i + j)) (sched i) (drop i ds) out tr
               else processBatch (\<lambda>j. probe (i + j)) (sched i) ?b out tr) = Some (output', tr')"
      proof (cases "i + concurrent > length ds")
        case True
        then have "take concurrent (drop i ds) = drop i ds" by simp
        with True Some p show ?thesis by simp
      next
        case False
        with Some p show ?thesis by simp
      qed
      have IH: "checker_loop probe sched ds (i + concurrent) output' tr' =
            run_groups probe sched (i + concurrent) (groups concurrent (drop (i + concurrent) ds)) output' tr'"
        using "1.IH" [OF True same refl] by simp
      have idx: "run_groups probe sched (i + length ?b) (groups concurrent (drop (i + concurrent) ds)) output' tr'
               = run_groups probe sched (i + concurrent) (groups concurrent (drop (i + concurrent) ds)) output' tr'"
      proof (cases "i + concurrent \<le> length ds")
        case True
        then have "length ?b = concurrent" by simp
        then show ?thesis by simp
      next
        case False
        then have "drop (i + concurrent) ds = []" by simp
        then show ?thesis by (simp add: groups_Nil)
      qed
      show ?thesis
        using True Some p IH idx
        by (subst checker_loop_unfold) (simp add: g)
    qed
  qed
qed

lemma fairD: "fair sched \<Longrightarrow> mset (sched i gs) = mset gs"
  by (simp add: fair_def)

lemma checker_loop_returns:
  "fair sched \<Longrightarrow> \<forall>k<length ds. probe k (ds ! k) \<noteq> None \<Longrightarrow> out = Some m \<Longrightarrow>
   \<exists>m'. checker_loop probe sched ds i out tr
          = Some (Some m', tr\<lparr>printed := printed tr @ groups concurrent (drop i ds),
                              launched := launched tr @ drop i ds\<rparr>) \<and>
        (\<forall>d. if d \<in> set (drop i ds)
             then (\<exists>k. i \<le> k \<and> k < length ds \<and> ds ! k = d \<and> m' d = probe k d)
             else m' d = m d)"
proof (induction probe sched ds i out tr arbitrary: m rule: checker_loop.induct)
  case (1 probe sched ds i out tr)
  show ?case
  proof (cases "i < length ds")
    case False
    then have "checker_loop probe sched ds i out tr = Some (out, tr)"
      by (subst checker_loop_unfold) simp
    with False "1.prems"(3) show ?thesis
      by (intro exI [of _ m]) (simp add: groups_Nil)
  next
    case True
    let ?b = "take concurrent (drop i ds)"
    let ?tr1 = "tr\<lparr>printed := printed tr @ [?b], launched := launched tr @ ?b\<rparr>"
    have nth_b: "\<And>j. j < length ?b \<Longrightarrow> ?b ! j = ds ! (i + j) \<and> i + j < length ds"
      using True by auto
    have ret_b: "\<forall>j<length ?b. probe (i + j) (?b ! j) \<noteq> None"
      using "1.prems"(2) nth_b by simp
    from processBatch_returns [of "sched i" ?b "\<lambda>j. probe (i + j)" m tr,
        OF fairD [OF "1.prems"(1)] ret_b]
    obtain m1 where
      batch: "processBatch (\<lambda>j. probe (i + j)) (sched i) ?b (Some m) tr = Some (Some m1, ?tr1)" and
      ent1: "\<forall>d. if d \<in> set ?b then (\<exists>j<length ?b. ?b ! j = d \<and> m1 d = probe (i + j) d)
                 else m1 d = m d"
      by blast
    have same: "(if i + concurrent > length ds
               then processBatch (\<lambda>j. probe (i + j)) (sched i) (drop i ds) out tr
               else processBatch (\<lambda>j. probe (i + j)) (sched i) ?b out tr) = Some (Some m1, ?tr1)"
    proof (cases "i + concurrent > length ds")
      case True
      then have "take concurrent (drop i ds) = drop i ds" by simp
      with True batch "1.prems"(3) show ?thesis by simp
    next
      case False
      with batch "1.prems"(3) show ?thesis by simp
    qed
    from "1.IH" [OF True same refl "1.prems"(1) "1.prems"(2) refl]
    obtain m' where
      rest: "checker_loop probe sched ds (i + concurrent) (Some m1) ?tr1
               = Some (Some m', ?tr1\<lparr>printed := printed ?tr1 @ groups concurrent (drop (i + concurrent) ds),
                                     launched := launched ?tr1 @ drop (i + concurrent) ds\<rparr>)" and
      ent2: "\<forall>d. if d \<in> set (drop (i + concurrent) ds)
                 then (\<exists>k. i + concurrent \<le> k \<and> k < length ds \<and> ds ! k = d \<and> m' d = probe k d)
                 else m' d = m1 d"
      by blast
    have g: "groups concurrent (drop i ds) = ?b # groups concurrent (drop (i + concurrent) ds)"
      using True by (simp add: groups_step concurrent_def add.commute)
    have split: "drop i ds = ?b @ drop (i + concurrent) ds"
      by (metis append_take_drop_id drop_drop add.commute)
    show ?thesis
    proof (intro exI [of _ m'] conjI allI)
      show "checker_loop probe sched ds i out tr
          = Some (Some m', tr\<lparr>printed := printed tr @ groups concurrent (drop i ds),
                              launched := launched tr @ drop i ds\<rparr>)"
        using True batch rest "1.prems"(3)
        by (subst checker_loop_unfold, subst (2) split) (simp add: g)
    next
      fix d
      show "if d \<in> set (drop i ds)
            then (\<exists>k. i \<le> k \<and> k < length ds \<and> ds ! k = d \<and> m' d = probe k d)
            else m' d = m d"
      proof (cases "d \<in> set (drop (i + concurrent) ds)")
        case True
        with ent2 obtain k where "i + concurrent \<le> k" "k < length ds" "ds ! k = d" "m' d = probe k d"
          by metis
        then have "\<exists>k. i \<le> k \<and> k < length ds \<and> ds ! k = d \<and> m' d = probe k d"
          by (intro exI [of _ k]) simp
        moreover from True have "d \<in> set (drop i ds)" by (subst split) simp
        ultimately show ?thesis by simp
      next
        case later: False
        with ent2 have m'd: "m' d = m1 d" by metis
        show ?thesis
        proof (cases "d \<in> set ?b")
          case True
          with ent1 obtain j where j: "j < length ?b" "?b ! j = d" "m1 d = probe (i + j) d"
            by metis
          from nth_b [OF j(1)] j m'd
          have "\<exists>k. i \<le> k \<and> k < length ds \<and> ds ! k = d \<and> m' d = probe k d"
            by (intro exI [of _ "i + j"]) simp
          moreover from True have "d \<in> set (drop i ds)" by (subst split) simp
          ultimately show ?thesis by simp
        next
          case False
          with ent1 have "m1 d = m d" by metis
          moreover from False later have "d \<notin> set (drop i ds)" by (subst split) simp
          ultimately show ?thesis using m'd by simp
        qed
      qed
    qed
  qed
qed

lemma groups_concat: "0 < n \<Longrightarrow> concat (groups n xs) = xs"
proof (induction n xs rule: groups.induct)
  case (1 n xs)
  show ?case
  proof (cases "xs = []")
    case True
    then show ?thesis by (simp add: groups_Nil)
  next
    case False
    with 1 show ?thesis by (simp add: groups_step)
  qed
qed

lemma groups_lengths:
  "0 < n \<Longrightarrow> g \<in> set (groups n xs) \<Longrightarrow> 1 \<le> length g \<and> length g \<le> n"
proof (induction n xs rule: groups.induct)
  case (1 n xs)
  show ?case
  proof (cases "xs = []")
    case True
    with "1.prems" show ?thesis by (simp add: groups_Nil)
  next
    case False
    with "1.prems" have "g = take n xs \<or> g \<in> set (groups n (drop n xs))"
      by (simp add: groups_step)
    then show ?thesis
    proof
      assume "g = take n xs"
      with False "1.prems"(1) show ?thesis by (cases xs) auto
    next
      assume "g \<in> set (groups n (drop n xs))"
      with 1 False show ?thesis by simp
    qed
  qed
qed

lemma groups_full:
  "0 < n \<Longrightarrow> g \<in> set (butlast (groups n xs)) \<Longrightarrow> length g = n"
proof (induction n xs rule: groups.induct)
  case (1 n xs)
  show ?case
  proof (cases "xs = []")
    case True
    with "1.prems" show ?thesis by (simp add: groups_Nil)
  next
    case False
    show ?thesis
    proof (cases "drop n xs = []")
      case True
      with False "1.prems" show ?thesis by (simp add: groups_step groups_Nil)
    next
      case more: False
      then have ne: "groups n (drop n xs) \<noteq> []"
        using "1.prems"(1) by (simp add: groups_step)
      from more have "n < length xs" by simp
      then have full: "length (take n xs) = n" by simp
      from "1.prems" False ne have "g = take n xs \<or> g \<in> set (butlast (groups n (drop n xs)))"
        by (simp add: groups_step)
      then show ?thesis
      proof
        assume "g = take n xs"
        with full show ?thesis by simp
      next
        assume "g \<in> set (butlast (groups n (drop n xs)))"
        with 1 False show ?thesis by simp
      qed
    qed
  qed
qed

lemma processBatch_trace:
  "processBatch probe order b out tr = Some (out', tr') \<Longrightarrow>
   tr' = tr\<lparr>printed := printed tr @ [b], launched := launched tr @ b\<rparr>"
  by (auto simp: processBatch_def Let_def split: option.splits)

lemma run_groups_trace:
  "run_groups probe sched i gs out tr = Some (out', tr') \<Longrightarrow>
   tr' = tr\<lparr>printed := printed tr @ gs, launched := launched tr @ concat gs\<rparr>"
proof (induction gs arbitrary: i out tr)
  case Nil
  then show ?case by simp
next
  case (Cons g gs)
  from Cons.prems obtain out1 tr1 where
    b: "processBatch (\<lambda>j. probe (i + j)) (sched i) g out tr = Some (out1, tr1)" and
    r: "run_groups probe sched (i + length g) gs out1 tr1 = Some (out', tr')"
    by (auto split: option.splits)
  from processBatch_trace [OF b] Cons.IH [OF r] show ?case by simp
qed

lemma fair_rev: "fair (\<lambda>i. rev)"
  by (simp add: fair_def)

lemma fair_id: "fair (\<lambda>i gs. gs)"
  by (simp add: fair_def)

lemma example_groups:
  "groups concurrent example_domains =
     [[''a.example'', ''b.example'', ''c.example'', ''d.example'', ''e.example'',
       ''f.example'', ''g.example'', ''h.example'', ''i.example'', ''j.example''],
      [''k.example'', ''a.example'']]"
  by code_simp

lemma probes_return_nth:
  "probes_return probe ds \<Longrightarrow> \<forall>k<length ds. probe k (ds ! k) \<noteq> None"
proof (intro allI impI)
  fix k assume p: "probes_return probe ds" and k: "k < length ds"
  then have "(k, ds ! k) \<in> set (zip [0..<length ds] ds)"
    by (metis (no_types, lifting) add_0 length_upt diff_zero length_zip min.idem nth_mem nth_upt nth_zip)
  with p show "probe k (ds ! k) \<noteq> None"
    by (auto simp: probes_return_def list_all_iff)
qed

lemma checker_returns:
  assumes "fair sched" "\<forall>k<length ds. probe k (ds ! k) \<noteq> None"
  shows "\<exists>m. checker probe sched ds
            = Some (Some m, \<lparr>printed = groups concurrent ds, launched = ds\<rparr>) \<and>
          (\<forall>d. if d \<in> set ds
               then (\<exists>k<length ds. ds ! k = d \<and> m d = probe k d)
               else m d = None)"
proof -
  from checker_loop_returns [where probe = probe and ds = ds and sched = sched and m = Map.empty
      and i = 0 and tr = "\<lparr>printed = [], launched = []\<rparr>", OF assms refl]
  obtain m' where
    run: "checker_loop probe sched ds 0 (Some Map.empty) \<lparr>printed = [], launched = []\<rparr>
            = Some (Some m', \<lparr>printed = groups concurrent ds, launched = ds\<rparr>)" and
    ent: "\<forall>d. if d \<in> set ds
              then (\<exists>k\<ge>0. k < length ds \<and> ds ! k = d \<and> m' d = probe k d)
              else m' d = None"
    by auto
  have "\<forall>d. if d \<in> set ds
              then (\<exists>k<length ds. ds ! k = d \<and> m' d = probe k d)
              else m' d = None"
  proof
    fix d
    from ent have "if d \<in> set ds
              then (\<exists>k\<ge>0. k < length ds \<and> ds ! k = d \<and> m' d = probe k d)
              else m' d = None" ..
    then show "if d \<in> set ds
              then (\<exists>k<length ds. ds ! k = d \<and> m' d = probe k d)
              else m' d = None"
      by (cases "d \<in> set ds") auto
  qed
  with run show ?thesis by (simp only: checker_def) blast
qed

text \<open>
  C1. In a run where every probe returns, \<open>checker\<close> returns a map whose keys are
  exactly the domains of the input: the number of entries is the number of distinct
  domains, which is \<open>min (length ds) (card (set ds))\<close>, and the entry of a domain holds
  the result of one of the probes of that domain.
\<close>

theorem checker_keys:
  assumes "fair sched" "probes_return probe ds"
  shows "\<exists>m tr. checker probe sched ds = Some (Some m, tr) \<and>
           dom m = set ds \<and>
           card (dom m) = min (length ds) (card (set ds)) \<and>
           (\<forall>d\<in>set ds. \<exists>k<length ds. ds ! k = d \<and> m d = probe k d)"
proof -
  note ret = probes_return_nth [OF assms(2)]
  from checker_returns [where probe = probe and ds = ds, OF assms(1) ret] obtain m where
    run: "checker probe sched ds = Some (Some m, \<lparr>printed = groups concurrent ds, launched = ds\<rparr>)" and
    ent: "\<forall>d. if d \<in> set ds then (\<exists>k<length ds. ds ! k = d \<and> m d = probe k d) else m d = None"
    by blast
  have dom: "dom m = set ds"
  proof (rule set_eqI)
    fix d
    show "d \<in> dom m \<longleftrightarrow> d \<in> set ds"
    proof (cases "d \<in> set ds")
      case True
      with ent obtain k where "k < length ds" "ds ! k = d" "m d = probe k d" by metis
      with ret have "m d \<noteq> None" by metis
      with True show ?thesis by (simp add: dom_def)
    next
      case False
      with ent have "m d = None" by metis
      with False show ?thesis by (simp add: dom_def)
    qed
  qed
  have card: "card (dom m) = min (length ds) (card (set ds))"
    using card_length [of ds] by (simp add: dom)
  have each: "\<forall>d\<in>set ds. \<exists>k<length ds. ds ! k = d \<and> m d = probe k d"
    using ent by metis
  from run dom card each show ?thesis by blast
qed

theorem checker_keys_witness:
  "fair (\<lambda>i. rev) \<and> probes_return example_probe example_domains \<and>
   (\<exists>m tr. checker example_probe (\<lambda>i. rev) example_domains = Some (Some m, tr) \<and>
      dom m = set example_domains \<and>
      card (dom m) = min (length example_domains) (card (set example_domains)) \<and>
      (\<forall>d\<in>set example_domains.
         \<exists>k<length example_domains. example_domains ! k = d \<and> m d = example_probe k d))"
proof -
  have h1: "fair (\<lambda>i. rev)" by (rule fair_rev)
  have h2: "probes_return example_probe example_domains"
    by (simp add: probes_return_def example_probe_def list_all_iff)
  from checker_keys [of "\<lambda>i. rev" example_probe example_domains, OF h1 h2] h1 h2
  show ?thesis by blast
qed

lemma checker_deterministic:
  assumes "fair sched"
  shows "checker (\<lambda>k d. Some (f d)) sched ds
           = Some (Some (\<lambda>d. if d \<in> set ds then Some (f d) else None),
                   \<lparr>printed = groups concurrent ds, launched = ds\<rparr>)"
proof -
  have "\<forall>k<length ds. (\<lambda>k d. Some (f d)) k (ds ! k) \<noteq> None" by simp
  from checker_returns [where probe = "\<lambda>k d. Some (f d)" and ds = ds, OF assms this] obtain m where
    run: "checker (\<lambda>k d. Some (f d)) sched ds
            = Some (Some m, \<lparr>printed = groups concurrent ds, launched = ds\<rparr>)" and
    ent: "\<forall>d. if d \<in> set ds then (\<exists>k<length ds. ds ! k = d \<and> m d = Some (f d)) else m d = None"
    by blast
  have "m = (\<lambda>d. if d \<in> set ds then Some (f d) else None)"
  proof (rule ext)
    fix d
    from ent show "m d = (if d \<in> set ds then Some (f d) else None)"
      by (cases "d \<in> set ds") metis+
  qed
  with run show ?thesis by simp
qed

text \<open>
  C2. \<open>checker\<close> processes the groups of the partition of its input into consecutive
  groups of \<open>concurrent\<close> domains, one group after the other in the order of the input,
  each on the map the group before it left. The groups put end to end are the input;
  every group but the last has exactly \<open>concurrent\<close> domains and every group, so the
  last one too, has between 1 and \<open>concurrent\<close>. A run that returns has called
  \<open>processBatch\<close> on these groups, in this order, and launched one goroutine for each
  domain of the input.
\<close>

theorem checker_groups:
  "checker probe sched ds
     = run_groups probe sched 0 (groups concurrent ds) (Some Map.empty)
         \<lparr>printed = [], launched = []\<rparr> \<and>
   concat (groups concurrent ds) = ds \<and>
   (\<forall>g\<in>set (butlast (groups concurrent ds)). length g = concurrent) \<and>
   (\<forall>g\<in>set (groups concurrent ds). 1 \<le> length g \<and> length g \<le> concurrent) \<and>
   (\<forall>out tr. checker probe sched ds = Some (out, tr) \<longrightarrow>
      printed tr = groups concurrent ds \<and> launched tr = ds)"
proof -
  have pos: "0 < concurrent" by (simp add: concurrent_def)
  have eq: "checker probe sched ds
     = run_groups probe sched 0 (groups concurrent ds) (Some Map.empty)
         \<lparr>printed = [], launched = []\<rparr>"
    by (simp add: checker_def checker_loop_groups)
  have tr: "\<forall>out tr. checker probe sched ds = Some (out, tr) \<longrightarrow>
      printed tr = groups concurrent ds \<and> launched tr = ds"
  proof (intro allI impI)
    fix out tr assume "checker probe sched ds = Some (out, tr)"
    with eq have "run_groups probe sched 0 (groups concurrent ds) (Some Map.empty)
         \<lparr>printed = [], launched = []\<rparr> = Some (out, tr)" by simp
    from run_groups_trace [OF this] show "printed tr = groups concurrent ds \<and> launched tr = ds"
      by (simp add: groups_concat [OF pos])
  qed
  from eq tr groups_concat [OF pos] groups_full [OF pos] groups_lengths [OF pos]
  show ?thesis by blast
qed

theorem checker_groups_witness:
  "groups concurrent example_domains
     = [take 10 example_domains, drop 10 example_domains] \<and>
   checker (\<lambda>k d. Some (example_stub d)) (\<lambda>i. rev) example_domains
     = run_groups (\<lambda>k d. Some (example_stub d)) (\<lambda>i. rev) 0
         [take 10 example_domains, drop 10 example_domains]
         (Some Map.empty) \<lparr>printed = [], launched = []\<rparr> \<and>
   concat [take 10 example_domains, drop 10 example_domains] = example_domains \<and>
   take 10 example_domains \<in> set (butlast (groups concurrent example_domains)) \<and>
   length (take 10 example_domains) = concurrent \<and>
   drop 10 example_domains \<in> set (groups concurrent example_domains) \<and>
   1 \<le> length (drop 10 example_domains) \<and>
   length (drop 10 example_domains) \<le> concurrent \<and>
   checker (\<lambda>k d. Some (example_stub d)) (\<lambda>i. rev) example_domains
     = Some (Some (\<lambda>d. if d \<in> set example_domains then Some (example_stub d) else None),
             \<lparr>printed = [take 10 example_domains, drop 10 example_domains],
              launched = example_domains\<rparr>) \<and>
   printed \<lparr>printed = [take 10 example_domains, drop 10 example_domains],
           launched = example_domains\<rparr>
     = groups concurrent example_domains"
proof -
  let ?P = "\<lambda>(k::nat) d. Some (example_stub d)"
  let ?S = "\<lambda>i::nat. rev :: (nat \<times> string) list \<Rightarrow> (nat \<times> string) list"
  let ?tr = "\<lparr>printed = [take 10 example_domains, drop 10 example_domains],
              launched = example_domains\<rparr>"
  have g: "groups concurrent example_domains
             = [take 10 example_domains, drop 10 example_domains]"
    by (simp add: example_groups) (simp add: example_domains_def)
  have run: "checker ?P ?S example_domains
     = Some (Some (\<lambda>d. if d \<in> set example_domains then Some (example_stub d) else None), ?tr)"
    by (simp add: checker_deterministic [OF fair_rev] g)
  have m1: "take 10 example_domains \<in> set (butlast (groups concurrent example_domains))"
    by (simp add: g)
  have m2: "drop 10 example_domains \<in> set (groups concurrent example_domains)"
    by (simp add: g)
  note t = checker_groups [of ?P ?S example_domains]
  from t have c1: "checker ?P ?S example_domains
     = run_groups ?P ?S 0 [take 10 example_domains, drop 10 example_domains]
         (Some Map.empty) \<lparr>printed = [], launched = []\<rparr>"
    by (simp add: g)
  from t have c2: "concat [take 10 example_domains, drop 10 example_domains] = example_domains"
    by (simp add: g)
  from t m1 have c3: "length (take 10 example_domains) = concurrent" by blast
  from t m2 have c4: "1 \<le> length (drop 10 example_domains) \<and>
      length (drop 10 example_domains) \<le> concurrent" by blast
  from t run have c5: "printed ?tr = groups concurrent example_domains" by blast
  from g c1 c2 m1 c3 m2 c4 run c5 show ?thesis by blast
qed

text \<open>
  C5. On the empty list \<open>checker\<close> returns the empty map, having called \<open>processBatch\<close>
  not once and launched no goroutine, so that no probe ran.
\<close>

theorem checker_empty:
  "checker probe sched [] = Some (Some Map.empty, \<lparr>printed = [], launched = []\<rparr>)"
  by (simp add: checker_def checker_loop_unfold)

text \<open>
  C7. With a deterministic probe, two runs of \<open>checker\<close> on the same list return the
  same map (and leave the same trace), however the scheduler orders the goroutines
  in each of the two runs.
\<close>

theorem checker_idempotent:
  assumes "fair sched" "fair sched'"
  shows "checker (\<lambda>k d. Some (f d)) sched ds = checker (\<lambda>k d. Some (f d)) sched' ds \<and>
         (\<exists>m tr. checker (\<lambda>k d. Some (f d)) sched ds = Some (Some m, tr))"
  by (simp add: checker_deterministic [OF assms(1)] checker_deterministic [OF assms(2)])

theorem checker_idempotent_witness:
  "fair (\<lambda>i. rev) \<and> fair (\<lambda>i gs. gs) \<and>
   checker (\<lambda>k d. Some (example_stub d)) (\<lambda>i. rev) example_domains
     = checker (\<lambda>k d. Some (example_stub d)) (\<lambda>i gs. gs) example_domains \<and>
   (\<exists>m tr. checker (\<lambda>k d. Some (example_stub d)) (\<lambda>i. rev) example_domains = Some (Some m, tr))"
  using checker_idempotent [OF fair_rev fair_id, of example_stub example_domains] fair_rev fair_id
  by blast

text \<open>
  C10. With a deterministic probe, \<open>checker\<close> returns the same map for a list and
  for every permutation of it.
\<close>

theorem checker_permutation:
  assumes "fair sched" "fair sched'" "mset ds = mset ds'"
  shows "map_option fst (checker (\<lambda>k d. Some (f d)) sched ds)
           = map_option fst (checker (\<lambda>k d. Some (f d)) sched' ds') \<and>
         (\<exists>m. map_option fst (checker (\<lambda>k d. Some (f d)) sched ds) = Some (Some m))"
proof -
  from assms(3) have "set ds = set ds'" by (rule mset_eq_setD)
  then show ?thesis
    by (simp add: checker_deterministic [OF assms(1)] checker_deterministic [OF assms(2)])
qed

theorem checker_permutation_witness:
  "fair (\<lambda>i. rev) \<and> fair (\<lambda>i gs. gs) \<and>
   mset example_domains = mset (rev example_domains) \<and>
   map_option fst (checker (\<lambda>k d. Some (example_stub d)) (\<lambda>i. rev) example_domains)
     = map_option fst (checker (\<lambda>k d. Some (example_stub d)) (\<lambda>i gs. gs) (rev example_domains)) \<and>
   (\<exists>m. map_option fst (checker (\<lambda>k d. Some (example_stub d)) (\<lambda>i. rev) example_domains)
          = Some (Some m))"
proof -
  have h: "mset example_domains = mset (rev example_domains)" by simp
  from checker_permutation [OF fair_rev fair_id h, of example_stub] fair_rev fair_id h
  show ?thesis by blast
qed

end
